theory Spec2Isabelle
  imports Main "HOL-Library.Product_Lexorder"
begin

section \<open>Find and replace: the ordered results list (utils.js)\<close>

subsection \<open>Markers, result records and the results collection\<close>

text \<open>
  A marker as \<open>writer.addMarker( resultId, { usingOperation: false, affectsData: false,
  range } )\<close> creates it: its name, the two options and the two ends of its range.
  Positions are a type parameter \<open>'p\<close>; the Position class is not among the sources.
\<close>

record 'p model_marker =
  name :: string
  usingOperation :: bool
  affectsData :: bool
  range_start :: 'p
  range_end :: 'p

text \<open>The object literal \<open>{ id: resultId, label: foundItem.label, marker }\<close>.\<close>

record 'p result_record =
  resultId :: string
  label :: string
  marker :: "'p model_marker"

text \<open>
  Modelled from the spec: the Position class and its \<open>isBefore\<close> are not among the
  sources. The spec orders match records "by the start position of each record's
  underlying range, per document order"; document order is taken as the strict order of a
  linearly ordered type of positions.
\<close>

definition isBefore :: "'p::linorder \<Rightarrow> 'p \<Rightarrow> bool" where
  "isBefore p q = (p < q)"

definition getStart :: "'p model_marker \<Rightarrow> 'p" where
  "getStart m = range_start m"

text \<open>
  Modelled from the spec: the Collection class behind the results list is not among the
  sources. The spec names its operations \<open>add(record, index)\<close>, \<open>getIndex(record)\<close> and
  \<open>length\<close>; \<open>find\<close> is the first-match search of an array, \<open>List.find\<close>. The collection
  is the list of its items in order. \<open>getIndex\<close> of an item that is not in the collection
  is -1, and \<open>add\<close> at an index outside \<open>0..length\<close> is an error, not a guess.
\<close>

datatype error = InvalidIndex | MatcherFault | TypeError

fun getIndex :: "'a list \<Rightarrow> 'a \<Rightarrow> int" where
  "getIndex [] x = - 1"
| "getIndex (y # ys) x =
     (if y = x then 0
      else (let i = getIndex ys x in if i < 0 then - 1 else i + 1))"

definition add :: "'a list \<Rightarrow> 'a \<Rightarrow> int \<Rightarrow> error + 'a list" where
  "add items item index =
     (if index < 0 \<or> int (length items) < index then Inl InvalidIndex
      else Inr (take (nat index) items @ item # drop (nat index) items))"

subsection \<open>findInsertIndex\<close>

text \<open>
  \<^verbatim>\<open>
  function findInsertIndex( resultsList, markerToInsert ) {
      const result = resultsList.find( ( { marker } ) => {
          return markerToInsert.getStart().isBefore( marker.getStart() );
      } );
      return result ? resultsList.getIndex( result ) : resultsList.length;
  }
  \<close>
  A found item is an object, hence truthy: the test \<open>result ?\<close> is the test that
  \<open>find\<close> found one.
\<close>

definition findInsertIndex :: "'p::linorder result_record list \<Rightarrow> 'p model_marker \<Rightarrow> int" where
  "findInsertIndex resultsList markerToInsert =
     (case List.find (\<lambda>r. isBefore (getStart markerToInsert) (getStart (marker r))) resultsList of
        Some result \<Rightarrow> getIndex resultsList result
      | None \<Rightarrow> int (length resultsList))"

text \<open>The starts of the records of a results list, in order, and the invariant on them.\<close>

definition starts :: "'p result_record list \<Rightarrow> 'p list" where
  "starts rs = map (\<lambda>r. getStart (marker r)) rs"

definition sorted_by_start :: "'p::linorder result_record list \<Rightarrow> bool" where
  "sorted_by_start rs = sorted (starts rs)"

text \<open>Records for the examples: a marker from one position to another, and its record.\<close>

definition marker_at :: "string \<Rightarrow> 'p \<Rightarrow> 'p \<Rightarrow> 'p model_marker" where
  "marker_at n s e =
     \<lparr>name = n, usingOperation = False, affectsData = False, range_start = s, range_end = e\<rparr>"

definition record_at :: "string \<Rightarrow> 'p \<Rightarrow> 'p result_record" where
  "record_at n s = \<lparr>resultId = n, label = n, marker = marker_at n s s\<rparr>"

definition records_2_5_9 :: "nat result_record list" where
  "records_2_5_9 = [record_at ''a'' 2, record_at ''b'' 5, record_at ''c'' 9]"

subsection \<open>rangeToText\<close>

text \<open>
  The items \<open>range.getItems()\<close> yields are text nodes, text proxies (parts of a text
  node) and elements; \<open>rangeToText\<close> reads only \<open>node.is( 'text' )\<close>,
  \<open>node.is( 'textProxy' )\<close> and \<open>node.data\<close>. A range is given by the list of its
  items in the order the iterator yields them.
\<close>

datatype model_node = Text string | TextProxy string | Element string

fun is_text :: "model_node \<Rightarrow> bool" where
  "is_text (Text d) = True"
| "is_text (TextProxy d) = False"
| "is_text (Element n) = False"

fun is_textProxy :: "model_node \<Rightarrow> bool" where
  "is_textProxy (Text d) = False"
| "is_textProxy (TextProxy d) = True"
| "is_textProxy (Element n) = False"

text \<open>\<open>node.data\<close>; an element has no such property (\<open>undefined\<close>), and is never asked.\<close>

fun data :: "model_node \<Rightarrow> string option" where
  "data (Text d) = Some d"
| "data (TextProxy d) = Some d"
| "data (Element n) = None"

definition newline :: string where
  "newline = [CHR 0x0A]"

text \<open>
  \<^verbatim>\<open>
  export function rangeToText( range ) {
      return Array.from( range.getItems() ).reduce( ( rangeText, node ) => {
          if ( !( node.is( 'text' ) || node.is( 'textProxy' ) ) ) {
              return `${ rangeText }\n`;
          }
          return rangeText + node.data;
      }, '' );
  }
  \<close>
  String concatenation with \<open>undefined\<close> appends the text "undefined".
\<close>

definition rangeToText_step :: "string \<Rightarrow> model_node \<Rightarrow> string" where
  "rangeToText_step rangeText node =
     (if \<not> (is_text node \<or> is_textProxy node) then rangeText @ newline
      else rangeText @ (case data node of Some d \<Rightarrow> d | None \<Rightarrow> ''undefined''))"

definition rangeToText :: "model_node list \<Rightarrow> string" where
  "rangeToText range_items = foldl rangeToText_step [] range_items"

text \<open>What one item contributes to the flattened text, in the words of the spec.\<close>

fun contribution :: "model_node \<Rightarrow> string" where
  "contribution (Text d) = d"
| "contribution (TextProxy d) = d"
| "contribution (Element n) = newline"

text \<open>
  Modelled from the spec: the length of a range is not computed in the sources. "The
  number of atomic positions spanned" counts one position for each character of a text
  item and one for any other item.
\<close>

fun offsetSize :: "model_node \<Rightarrow> nat" where
  "offsetSize (Text d) = length d"
| "offsetSize (TextProxy d) = length d"
| "offsetSize (Element n) = 1"

definition positions_spanned :: "model_node list \<Rightarrow> nat" where
  "positions_spanned range_items = sum_list (map offsetSize range_items)"

definition range_ab_break_cd :: "model_node list" where
  "range_ab_break_cd = [Text ''ab'', Element ''softBreak'', Text ''cd'']"

subsection \<open>updateFindResultFromRange\<close>

text \<open>
  The values the iteration of a range yields, \<open>{ type, item }\<close>, are pairs. The items
  are a type parameter \<open>'e\<close>. What the function asks of the model is a parameter: the
  schema query \<open>model.schema.checkChild( item, '$text' )\<close>, the items of
  \<open>model.createRangeIn( item )\<close>, \<open>writer.createPositionAt( item, offset )\<close>, and what
  the n-th call of \<open>uid()\<close> returns.
\<close>

datatype walker_type = ElementStart | ElementEnd | TextValue

record ('e, 'p) model_env =
  checkChild :: "'e \<Rightarrow> bool"
  itemsIn :: "'e \<Rightarrow> model_node list"
  createPositionAt :: "'e \<Rightarrow> nat \<Rightarrow> 'p"
  uid :: "nat \<Rightarrow> string"

text \<open>A hit of the callback, \<open>{ start, end, label }\<close>.\<close>

record found_item =
  fstart :: nat
  fend :: nat
  flabel :: string

text \<open>
  The callback is the caller's: it throws, returns a falsy value (\<open>undefined\<close>,
  \<open>null\<close>), or returns a collection of hits.
\<close>

datatype callback_result = Throws | Falsy | FoundItems "found_item list"

text \<open>
  What the function mutates: the results list, the markers of the model, and the number
  of calls of \<open>uid()\<close> so far.
\<close>

record 'p scan_state =
  results :: "'p result_record list"
  markers :: "'p model_marker list"
  uidCalls :: nat

text \<open>
  A run either completes or throws; a throw carries the state at that moment, since
  nothing undoes the mutations made before it.
\<close>

datatype 's outcome = Completed 's | Threw error 's

fun state_of :: "'s outcome \<Rightarrow> 's" where
  "state_of (Completed s) = s"
| "state_of (Threw e s) = s"

text \<open>
  The body of \<open>model.change( writer => { ... } )\<close> for one hit (lines 30 to 49): a fresh
  id, the marker, its index in the results list, and the insertion.
\<close>

definition insertFoundItem ::
  "('e, 'p::linorder) model_env \<Rightarrow> 'e \<Rightarrow> found_item \<Rightarrow> 'p scan_state \<Rightarrow> 'p scan_state outcome" where
  "insertFoundItem model item foundItem s =
     (let newId = ''findResult:'' @ uid model (uidCalls s);
          newMarker = \<lparr>name = newId, usingOperation = False, affectsData = False,
            range_start = createPositionAt model item (fstart foundItem),
            range_end = createPositionAt model item (fend foundItem)\<rparr>;
          s1 = s\<lparr>markers := markers s @ [newMarker], uidCalls := Suc (uidCalls s)\<rparr>;
          index = findInsertIndex (results s1) newMarker
      in case add (results s1)
                \<lparr>resultId = newId, label = flabel foundItem, marker = newMarker\<rparr> index of
           Inl e \<Rightarrow> Threw e s1
         | Inr rs \<Rightarrow> Completed (s1\<lparr>results := rs\<rparr>))"

text \<open>\<open>foundItems.forEach( foundItem => ... )\<close>: a throw ends the loop.\<close>

fun forEachFoundItem ::
  "('e, 'p::linorder) model_env \<Rightarrow> 'e \<Rightarrow> found_item list \<Rightarrow> 'p scan_state \<Rightarrow> 'p scan_state outcome" where
  "forEachFoundItem model item [] s = Completed s"
| "forEachFoundItem model item (foundItem # rest) s =
     (case insertFoundItem model item foundItem s of
        Completed s' \<Rightarrow> forEachFoundItem model item rest s'
      | Threw e s' \<Rightarrow> Threw e s')"

text \<open>The callback of the outer \<open>forEach\<close>, for one value of the range (lines 16 to 54).\<close>

definition visitValue ::
  "('e, 'p::linorder) model_env \<Rightarrow> ('e \<Rightarrow> string \<Rightarrow> callback_result) \<Rightarrow>
   walker_type \<times> 'e \<Rightarrow> 'p scan_state \<Rightarrow> 'p scan_state outcome" where
  "visitValue model findCallback v s =
     (case v of (ty, item) \<Rightarrow>
        if ty = ElementStart then
          if checkChild model item then
            (case findCallback item (rangeToText (itemsIn model item)) of
               Throws \<Rightarrow> Threw MatcherFault s
             | Falsy \<Rightarrow> Completed s
             | FoundItems foundItems \<Rightarrow> forEachFoundItem model item foundItems s)
          else Completed s
        else Completed s)"

text \<open>
  \<open>[ ...range ].forEach( ... )\<close>: the values in order; an exception thrown in the
  callback leaves \<open>forEach\<close> and the function, which has no \<open>try\<close>.
\<close>

fun updateFindResultFromRange ::
  "(walker_type \<times> 'e) list \<Rightarrow> ('e, 'p::linorder) model_env \<Rightarrow>
   ('e \<Rightarrow> string \<Rightarrow> callback_result) \<Rightarrow> 'p scan_state \<Rightarrow> 'p scan_state outcome" where
  "updateFindResultFromRange [] model findCallback s = Completed s"
| "updateFindResultFromRange (v # range_rest) model findCallback s =
     (case visitValue model findCallback v s of
        Completed s' \<Rightarrow> updateFindResultFromRange range_rest model findCallback s'
      | Threw e s' \<Rightarrow> Threw e s')"

text \<open>
  A small document for the examples: elements are numbered, all of them may hold text,
  element \<open>k\<close> holds the text "cat sat", and positions are pairs of the element and the
  offset in it, in lexicographic order.
\<close>

definition example_model :: "(nat, nat \<times> nat) model_env" where
  "example_model =
     \<lparr>checkChild = (\<lambda>item. True),
      itemsIn = (\<lambda>item. [Text ''cat sat'']),
      createPositionAt = (\<lambda>item offset. (item, offset)),
      uid = (\<lambda>n. replicate (Suc n) CHR ''e'')\<rparr>"

definition empty_state :: "(nat \<times> nat) scan_state" where
  "empty_state = \<lparr>results = [], markers = [], uidCalls = 0\<rparr>"

definition hit_cat :: found_item where
  "hit_cat = \<lparr>fstart = 0, fend = 3, flabel = ''cat''\<rparr>"

definition hit_sat :: found_item where
  "hit_sat = \<lparr>fstart = 4, fend = 7, flabel = ''sat''\<rparr>"

text \<open>
  Three callbacks: one that finds "cat" and "sat" in every element, one that throws on
  element 0 and one that returns a falsy value on element 0, both finding "cat" elsewhere.
\<close>

definition find_cat_sat :: "nat \<Rightarrow> string \<Rightarrow> callback_result" where
  "find_cat_sat item text = FoundItems [hit_cat, hit_sat]"

definition throws_on_0 :: "nat \<Rightarrow> string \<Rightarrow> callback_result" where
  "throws_on_0 item text = (if item = 0 then Throws else FoundItems [hit_cat])"

definition falsy_on_0 :: "nat \<Rightarrow> string \<Rightarrow> callback_result" where
  "falsy_on_0 item text = (if item = 0 then Falsy else FoundItems [hit_cat])"

definition state_2_5 :: "(nat \<times> nat) scan_state" where
  "state_2_5 =
     \<lparr>results = [record_at ''a'' (0, 2), record_at ''b'' (0, 5)], markers = [], uidCalls = 0\<rparr>"

section \<open>The view observer (observer.ts)\<close>

subsection \<open>The observer and its life cycle\<close>

text \<open>
  Of the View class, which is not among the sources, the constructor reads the property
  \<open>document\<close> only.
\<close>

record 'd view_t =
  view_document :: 'd

text \<open>
  The fields of the class, and the listeners the observer has registered through the
  emitter mixed into it (\<open>mix( Observer, DomEmitterMixin )\<close>).
\<close>

record ('d, 'l) observer =
  view :: "'d view_t"
  document :: 'd
  isEnabled :: bool
  listeners :: "'l list"

definition Observer :: "'d view_t \<Rightarrow> ('d, 'l) observer" where
  "Observer v = \<lparr>view = v, document = view_document v, isEnabled = False, listeners = []\<rparr>"

definition enable :: "('d, 'l) observer \<Rightarrow> ('d, 'l) observer" where
  "enable obs = obs\<lparr>isEnabled := True\<rparr>"

definition disable :: "('d, 'l) observer \<Rightarrow> ('d, 'l) observer" where
  "disable obs = obs\<lparr>isEnabled := False\<rparr>"

text \<open>
  Modelled from the spec: \<open>stopListening\<close> comes from DomEmitterMixin, which is not among
  the sources. The spec: destroy "permanently detaches all event listeners this Observer
  registered on any emitter".
\<close>

definition stopListening :: "('d, 'l) observer \<Rightarrow> ('d, 'l) observer" where
  "stopListening obs = obs\<lparr>listeners := []\<rparr>"

text \<open>
  Modelled from the spec: the dispatch of an event to a listener is the emitter's too. A
  listener can fire for the observer exactly while it is registered.
\<close>

definition can_fire :: "('d, 'l) observer \<Rightarrow> 'l \<Rightarrow> bool" where
  "can_fire obs l = (l \<in> set (listeners obs))"

definition destroy :: "('d, 'l) observer \<Rightarrow> ('d, 'l) observer" where
  "destroy obs = stopListening (disable obs)"

text \<open>The calls the class defines, and a sequence of them applied in order.\<close>

datatype observer_call = Enable | Disable | Destroy

fun call :: "observer_call \<Rightarrow> ('d, 'l) observer \<Rightarrow> ('d, 'l) observer" where
  "call Enable obs = enable obs"
| "call Disable obs = disable obs"
| "call Destroy obs = destroy obs"

fun calls :: "observer_call list \<Rightarrow> ('d, 'l) observer \<Rightarrow> ('d, 'l) observer" where
  "calls [] obs = obs"
| "calls (c # cs) obs = calls cs (call c obs)"

fun is_toggle :: "observer_call \<Rightarrow> bool" where
  "is_toggle Enable = True"
| "is_toggle Disable = True"
| "is_toggle Destroy = False"

definition example_observer :: "(nat, string) observer" where
  "example_observer =
     \<lparr>view = \<lparr>view_document = 7\<rparr>, document = 7, isEnabled = True,
      listeners = [''click'', ''keydown'']\<rparr>"

subsection \<open>DOM nodes and checkShouldIgnoreEventFromTarget\<close>

text \<open>
  The DOM is the browser's. A node is of one of the kinds of the DOM standard, an element
  carries attributes (their names are enough here), and every node knows its parent, so a
  node is given together with the chain of its ancestors. A target that is \<open>null\<close> or
  \<open>undefined\<close> is \<open>None\<close>.
\<close>

datatype node_kind =
    ElementKind "string list"
  | TextKind
  | CDATASectionKind
  | ProcessingInstructionKind
  | CommentKind
  | DocumentKind
  | DocumentTypeKind
  | DocumentFragmentKind

datatype dom_node = DomNode node_kind "dom_node option"

fun kind :: "dom_node \<Rightarrow> node_kind" where
  "kind (DomNode k p) = k"

fun parentNode :: "dom_node \<Rightarrow> dom_node option" where
  "parentNode (DomNode k p) = p"

fun nodeType_of_kind :: "node_kind \<Rightarrow> nat" where
  "nodeType_of_kind (ElementKind as) = 1"
| "nodeType_of_kind TextKind = 3"
| "nodeType_of_kind CDATASectionKind = 4"
| "nodeType_of_kind ProcessingInstructionKind = 7"
| "nodeType_of_kind CommentKind = 8"
| "nodeType_of_kind DocumentKind = 9"
| "nodeType_of_kind DocumentTypeKind = 10"
| "nodeType_of_kind DocumentFragmentKind = 11"

definition nodeType :: "dom_node \<Rightarrow> nat" where
  "nodeType n = nodeType_of_kind (kind n)"

fun hasAttribute_kind :: "node_kind \<Rightarrow> string \<Rightarrow> bool" where
  "hasAttribute_kind (ElementKind as) a = (a \<in> set as)"
| "hasAttribute_kind k a = False"

definition hasAttribute :: "dom_node \<Rightarrow> string \<Rightarrow> bool" where
  "hasAttribute n a = hasAttribute_kind (kind n) a"

fun ancestors :: "dom_node \<Rightarrow> dom_node list" where
  "ancestors (DomNode k None) = []"
| "ancestors (DomNode k (Some p)) = p # ancestors p"

text \<open>
  The two selectors of the selector list in the source: \<open>[a]\<close>, an element with the
  attribute, and \<open>[a] *\<close>, an element below an element with the attribute.
  \<open>Element.matches\<close> holds when one selector of the list does; only an element has the
  method, so the call on any other node is a TypeError.
\<close>

datatype selector = WithAttribute string | BelowWithAttribute string

fun matches_one :: "dom_node \<Rightarrow> selector \<Rightarrow> bool" where
  "matches_one n (WithAttribute a) = hasAttribute n a"
| "matches_one n (BelowWithAttribute a) = list_ex (\<lambda>p. hasAttribute p a) (ancestors n)"

definition matches :: "dom_node \<Rightarrow> selector list \<Rightarrow> error + bool" where
  "matches n selectors =
     (if nodeType n = 1 then Inr (list_ex (matches_one n) selectors) else Inl TypeError)"

definition ignore_events_selectors :: "selector list" where
  "ignore_events_selectors =
     [WithAttribute ''data-cke-ignore-events'', BelowWithAttribute ''data-cke-ignore-events'']"

text \<open>
  \<^verbatim>\<open>
  public checkShouldIgnoreEventFromTarget( domTarget: Node ): boolean {
      if ( domTarget && domTarget.nodeType === 3 ) {
          domTarget = domTarget.parentNode as any;
      }
      if ( !domTarget || domTarget.nodeType !== 1 ) {
          return false;
      }
      return ( domTarget as any ).matches( '[data-cke-ignore-events], [data-cke-ignore-events] *' );
  }
  \<close>
  Reading a property of \<open>null\<close> or \<open>undefined\<close> is a TypeError, and so is the call of
  \<open>matches\<close> on them; a target is truthy when it is a node. The operators \<open>&&\<close> and
  \<open>||\<close> evaluate their right operand only when the left one does not decide, and an
  error in an operand is the error of the whole.
\<close>

definition truthy :: "dom_node option \<Rightarrow> bool" where
  "truthy t = (t \<noteq> None)"

definition read_nodeType :: "dom_node option \<Rightarrow> error + nat" where
  "read_nodeType t = (case t of None \<Rightarrow> Inl TypeError | Some n \<Rightarrow> Inr (nodeType n))"

definition read_parentNode :: "dom_node option \<Rightarrow> error + dom_node option" where
  "read_parentNode t = (case t of None \<Rightarrow> Inl TypeError | Some n \<Rightarrow> Inr (parentNode n))"

definition call_matches :: "dom_node option \<Rightarrow> selector list \<Rightarrow> error + bool" where
  "call_matches t selectors =
     (case t of None \<Rightarrow> Inl TypeError | Some n \<Rightarrow> matches n selectors)"

fun and_then :: "error + 'a \<Rightarrow> ('a \<Rightarrow> error + 'b) \<Rightarrow> error + 'b" where
  "and_then (Inl e) f = Inl e"
| "and_then (Inr x) f = f x"

definition checkShouldIgnoreEventFromTarget :: "dom_node option \<Rightarrow> error + bool" where
  "checkShouldIgnoreEventFromTarget domTarget =
     and_then
       (if truthy domTarget
        then and_then (read_nodeType domTarget) (\<lambda>ty. Inr (ty = 3))
        else Inr False)
       (\<lambda>isTextNode.
     and_then
       (if isTextNode then read_parentNode domTarget else Inr domTarget)
       (\<lambda>domTarget1.
     and_then
       (if \<not> truthy domTarget1 then Inr True
        else and_then (read_nodeType domTarget1) (\<lambda>ty. Inr (ty \<noteq> 1)))
       (\<lambda>notAnElement.
     if notAnElement then Inr False
     else call_matches domTarget1 ignore_events_selectors)))"

text \<open>
  The policy in the words of the spec: resolve a text node to its parent; a resolved
  target that is no element is not ignored; an element is ignored exactly when it or one of
  its ancestors carries the attribute \<open>data-cke-ignore-events\<close>.
\<close>

fun carries_upward :: "dom_node \<Rightarrow> bool" where
  "carries_upward (DomNode k None) = hasAttribute_kind k ''data-cke-ignore-events''"
| "carries_upward (DomNode k (Some p)) =
     (hasAttribute_kind k ''data-cke-ignore-events'' \<or> carries_upward p)"

fun is_element :: "dom_node \<Rightarrow> bool" where
  "is_element (DomNode (ElementKind as) p) = True"
| "is_element (DomNode k p) = False"

fun is_text_node :: "dom_node \<Rightarrow> bool" where
  "is_text_node (DomNode TextKind p) = True"
| "is_text_node (DomNode k p) = False"

definition resolve_target :: "dom_node option \<Rightarrow> dom_node option" where
  "resolve_target t =
     (case t of None \<Rightarrow> None | Some n \<Rightarrow> if is_text_node n then parentNode n else Some n)"

definition ignore_policy :: "dom_node option \<Rightarrow> bool" where
  "ignore_policy t =
     (case resolve_target t of
        None \<Rightarrow> False
      | Some n \<Rightarrow> if is_element n then carries_upward n else False)"

text \<open>Nodes for the examples.\<close>

definition ignored_div :: dom_node where
  "ignored_div = DomNode (ElementKind [''class'', ''data-cke-ignore-events'']) None"

definition text_in_ignored_div :: dom_node where
  "text_in_ignored_div = DomNode TextKind (Some ignored_div)"

definition plain_paragraph :: dom_node where
  "plain_paragraph =
     DomNode (ElementKind [''class'']) (Some (DomNode (ElementKind []) (Some (DomNode DocumentKind None))))"

definition detached_text :: dom_node where
  "detached_text = DomNode TextKind None"

section \<open>Properties of the results list\<close>

subsection \<open>The collection and findInsertIndex\<close>

lemma getIndex_first_match:
  "List.find P xs = Some x \<Longrightarrow> getIndex xs x = int (length (takeWhile (\<lambda>y. \<not> P y) xs))"
proof (induction xs)
  case Nil
  then show ?case by simp
next
  case (Cons y ys)
  show ?case
  proof (cases "P y")
    case True
    with Cons.prems show ?thesis by simp
  next
    case False
    with Cons.prems have found: "List.find P ys = Some x" by simp
    then have "P x" by (auto simp: find_Some_iff)
    with False have "y \<noteq> x" by auto
    with False Cons.IH [OF found] show ?thesis by (simp add: Let_def)
  qed
qed

lemma find_None_takeWhile:
  "List.find P xs = None \<Longrightarrow> takeWhile (\<lambda>y. \<not> P y) xs = xs"
  by (induction xs) (auto split: if_splits)

lemma findInsertIndex_takeWhile:
  "findInsertIndex rs m =
     int (length (takeWhile (\<lambda>r. \<not> getStart m < getStart (marker r)) rs))"
proof (cases "List.find (\<lambda>r. getStart m < getStart (marker r)) rs")
  case None
  then show ?thesis
    by (simp add: findInsertIndex_def isBefore_def find_None_takeWhile)
next
  case (Some r)
  then show ?thesis
    by (simp add: findInsertIndex_def isBefore_def getIndex_first_match)
qed

lemma findInsertIndex_range:
  "0 \<le> findInsertIndex rs m \<and> findInsertIndex rs m \<le> int (length rs)"
  by (simp add: findInsertIndex_takeWhile length_takeWhile_le)

lemma add_at_findInsertIndex:
  "add rs r (findInsertIndex rs m) =
     Inr (takeWhile (\<lambda>r. \<not> getStart m < getStart (marker r)) rs @ r #
          dropWhile (\<lambda>r. \<not> getStart m < getStart (marker r)) rs)"
proof -
  let ?P = "\<lambda>r. \<not> getStart m < getStart (marker r)"
  let ?n = "length (takeWhile ?P rs)"
  have idx: "findInsertIndex rs m = int ?n"
    by (rule findInsertIndex_takeWhile)
  have le: "?n \<le> length rs"
    by (rule length_takeWhile_le)
  have t: "take ?n rs = takeWhile ?P rs"
    by (rule takeWhile_eq_take [symmetric])
  have d: "drop ?n rs = dropWhile ?P rs"
    by (rule dropWhile_eq_drop [symmetric])
  have "add rs r (int ?n) = Inr (take ?n rs @ r # drop ?n rs)"
    using le unfolding add_def by simp
  then show ?thesis
    unfolding idx t d .
qed

lemma sorted_insert_before_first_greater:
  fixes x :: "'a::linorder"
  shows "sorted xs \<Longrightarrow>
    sorted (takeWhile (\<lambda>y. \<not> x < y) xs @ x # dropWhile (\<lambda>y. \<not> x < y) xs)"
proof (induction xs)
  case Nil
  then show ?case by simp
next
  case (Cons y ys)
  show ?case
  proof (cases "x < y")
    case True
    with Cons.prems show ?thesis by auto
  next
    case False
    from Cons.prems have "sorted ys" and low: "\<forall>z \<in> set ys. y \<le> z" by simp_all
    with Cons.IH have IH: "sorted (takeWhile (\<lambda>y. \<not> x < y) ys @ x # dropWhile (\<lambda>y. \<not> x < y) ys)"
      by simp
    have "\<forall>z \<in> set (takeWhile (\<lambda>y. \<not> x < y) ys @ x # dropWhile (\<lambda>y. \<not> x < y) ys). y \<le> z"
      using low False by (auto dest: set_takeWhileD set_dropWhileD)
    with IH False show ?thesis by simp
  qed
qed

lemma starts_insert:
  "starts (takeWhile (\<lambda>r. \<not> x < getStart (marker r)) rs @ r #
           dropWhile (\<lambda>r. \<not> x < getStart (marker r)) rs) =
   takeWhile (\<lambda>y. \<not> x < y) (starts rs) @ getStart (marker r) #
     dropWhile (\<lambda>y. \<not> x < y) (starts rs)"
  by (simp add: starts_def takeWhile_map dropWhile_map comp_def)

lemma sorted_add_findInsertIndex:
  assumes "sorted_by_start rs"
  shows "\<exists>rs'. add rs r (findInsertIndex rs (marker r)) = Inr rs' \<and> sorted_by_start rs' \<and>
           length rs' = Suc (length rs)"
proof -
  let ?x = "getStart (marker r)"
  let ?rs' = "takeWhile (\<lambda>q. \<not> ?x < getStart (marker q)) rs @ r #
              dropWhile (\<lambda>q. \<not> ?x < getStart (marker q)) rs"
  have a: "add rs r (findInsertIndex rs (marker r)) = Inr ?rs'"
    by (rule add_at_findInsertIndex)
  from assms have "sorted (starts rs)"
    by (simp add: sorted_by_start_def)
  then have "sorted (starts ?rs')"
    unfolding starts_insert by (rule sorted_insert_before_first_greater)
  then have s: "sorted_by_start ?rs'"
    by (simp add: sorted_by_start_def)
  have "length (takeWhile (\<lambda>q. \<not> ?x < getStart (marker q)) rs) +
        length (dropWhile (\<lambda>q. \<not> ?x < getStart (marker q)) rs) =
        length (takeWhile (\<lambda>q. \<not> ?x < getStart (marker q)) rs @
          dropWhile (\<lambda>q. \<not> ?x < getStart (marker q)) rs)"
    by (simp only: length_append)
  also have "\<dots> = length rs"
    by (simp only: takeWhile_dropWhile_id)
  finally have l: "length ?rs' = Suc (length rs)"
    by simp
  from a s l show ?thesis by blast
qed

subsection \<open>The scan\<close>

lemma insertFoundItem_completes:
  assumes "sorted_by_start (results s)"
  shows "\<exists>s'. insertFoundItem model item foundItem s = Completed s' \<and>
           sorted_by_start (results s') \<and> length (results s') = Suc (length (results s))"
proof -
  let ?id = "''findResult:'' @ uid model (uidCalls s)"
  let ?m = "\<lparr>name = ?id, usingOperation = False, affectsData = False,
             range_start = createPositionAt model item (fstart foundItem),
             range_end = createPositionAt model item (fend foundItem)\<rparr>"
  let ?r = "\<lparr>resultId = ?id, label = flabel foundItem, marker = ?m\<rparr>"
  from sorted_add_findInsertIndex [OF assms, of ?r]
  obtain rs' where a: "add (results s) ?r (findInsertIndex (results s) ?m) = Inr rs'"
    and s: "sorted_by_start rs'" and l: "length rs' = Suc (length (results s))"
    by auto
  from a have "insertFoundItem model item foundItem s =
      Completed (s\<lparr>markers := markers s @ [?m], uidCalls := Suc (uidCalls s), results := rs'\<rparr>)"
    by (simp add: insertFoundItem_def Let_def)
  with s l show ?thesis by simp
qed

lemma forEachFoundItem_sorted:
  "sorted_by_start (results s) \<Longrightarrow>
   \<exists>s'. forEachFoundItem model item foundItems s = Completed s' \<and> sorted_by_start (results s')"
proof (induction foundItems arbitrary: s)
  case Nil
  then show ?case by simp
next
  case (Cons f fs)
  from insertFoundItem_completes [OF Cons.prems, of model item f]
  obtain s1 where c: "insertFoundItem model item f s = Completed s1"
    and s: "sorted_by_start (results s1)"
    by blast
  from Cons.IH [OF s] c show ?case by simp
qed

lemma visitValue_sorted:
  assumes "sorted_by_start (results s)"
  shows "sorted_by_start (results (state_of (visitValue model findCallback v s)))"
proof (cases v)
  case (Pair ty item)
  show ?thesis
  proof (cases "findCallback item (rangeToText (itemsIn model item))")
    case (FoundItems fs)
    from forEachFoundItem_sorted [OF assms, of model item fs]
    obtain s' where "forEachFoundItem model item fs s = Completed s'"
      and "sorted_by_start (results s')"
      by blast
    with Pair FoundItems assms show ?thesis
      by (simp add: visitValue_def)
  qed (use Pair assms in \<open>simp_all add: visitValue_def\<close>)
qed

lemma updateFindResultFromRange_sorted:
  "sorted_by_start (results s) \<Longrightarrow>
   sorted_by_start (results (state_of (updateFindResultFromRange range_values model findCallback s)))"
proof (induction range_values arbitrary: s)
  case Nil
  then show ?case by simp
next
  case (Cons v vs)
  from visitValue_sorted [OF Cons.prems, of model findCallback v]
  have s: "sorted_by_start (results (state_of (visitValue model findCallback v s)))" .
  show ?case
  proof (cases "visitValue model findCallback v s")
    case (Completed s')
    with s Cons.IH [of s'] show ?thesis by simp
  next
    case (Threw e s')
    with s show ?thesis by simp
  qed
qed

lemma updateFindResultFromRange_append:
  "updateFindResultFromRange (before @ after) model findCallback s =
     (case updateFindResultFromRange before model findCallback s of
        Completed s' \<Rightarrow> updateFindResultFromRange after model findCallback s'
      | Threw e s' \<Rightarrow> Threw e s')"
  by (induction before arbitrary: s) (auto split: outcome.splits)

section \<open>The claims about the results list\<close>

lemmas example_defs =
  records_2_5_9_def record_at_def marker_at_def findInsertIndex_def isBefore_def getStart_def

text \<open>
  C7: when the new marker starts strictly after the start of every record of the results
  list, \<open>findInsertIndex\<close> returns the length of the list; when it starts strictly
  before the start of every record, \<open>findInsertIndex\<close> returns 0. With the starts
  2, 5, 9, a new start 10 gives index 3 and a new start 0 gives index 0. This holds for
  every results list; that the starts are pairwise distinct is not needed.
\<close>

theorem findInsertIndex_beyond_all_starts:
  "((\<forall>r \<in> set rs. getStart (marker r) < getStart m) \<longrightarrow>
      findInsertIndex rs m = int (length rs)) \<and>
   ((\<forall>r \<in> set rs. getStart m < getStart (marker r)) \<longrightarrow>
      findInsertIndex rs m = 0) \<and>
   findInsertIndex records_2_5_9 (marker_at ''n'' 10 10) = 3 \<and>
   findInsertIndex records_2_5_9 (marker_at ''n'' 0 0) = 0"
proof (intro conjI impI)
  assume "\<forall>r \<in> set rs. getStart (marker r) < getStart m"
  then have "\<forall>r \<in> set rs. \<not> getStart m < getStart (marker r)"
    by auto
  then have tw: "takeWhile (\<lambda>r. \<not> getStart m < getStart (marker r)) rs = rs"
    by (simp only: takeWhile_eq_all_conv)
  show "findInsertIndex rs m = int (length rs)"
    unfolding findInsertIndex_takeWhile tw by (rule refl)
next
  assume "\<forall>r \<in> set rs. getStart m < getStart (marker r)"
  then have tw: "takeWhile (\<lambda>r. \<not> getStart m < getStart (marker r)) rs = []"
    by (cases rs) simp_all
  show "findInsertIndex rs m = 0"
    unfolding findInsertIndex_takeWhile tw by simp
next
  show "findInsertIndex records_2_5_9 (marker_at ''n'' 10 10) = 3"
    by (simp add: example_defs)
next
  show "findInsertIndex records_2_5_9 (marker_at ''n'' 0 0) = 0"
    by (simp add: example_defs)
qed

theorem findInsertIndex_beyond_all_starts_witness:
  "list_all (\<lambda>r. getStart (marker r) < getStart (marker_at ''n'' (6::nat) 8))
     [record_at ''a'' 1, record_at ''b'' 4] \<and>
   findInsertIndex [record_at ''a'' 1, record_at ''b'' 4] (marker_at ''n'' (6::nat) 8) = 2 \<and>
   list_all (\<lambda>r. getStart (marker_at ''n'' (0::nat) 3) < getStart (marker r))
     [record_at ''a'' 1, record_at ''b'' 4] \<and>
   findInsertIndex [record_at ''a'' 1, record_at ''b'' 4] (marker_at ''n'' (0::nat) 3) = 0"
proof -
  let ?rs = "[record_at ''a'' (1::nat), record_at ''b'' 4]"
  have after: "\<forall>r \<in> set ?rs. getStart (marker r) < getStart (marker_at ''n'' (6::nat) 8)"
    by (simp add: record_at_def marker_at_def getStart_def)
  have before: "\<forall>r \<in> set ?rs. getStart (marker_at ''n'' (0::nat) 3) < getStart (marker r)"
    by (simp add: record_at_def marker_at_def getStart_def)
  from findInsertIndex_beyond_all_starts [of ?rs "marker_at ''n'' 6 8"] after
  have a: "findInsertIndex ?rs (marker_at ''n'' 6 8) = int (length ?rs)"
    by blast
  from findInsertIndex_beyond_all_starts [of ?rs "marker_at ''n'' 0 3"] before
  have b: "findInsertIndex ?rs (marker_at ''n'' 0 3) = 0"
    by blast
  from a b after before show ?thesis
    by (simp add: list_all_iff)
qed

text \<open>
  C1, as the claim states it, fails: with the starts 2, 5, 9 and a new marker that
  starts at 5, \<open>findInsertIndex\<close> returns 2, not 1. The search looks for the first
  record that the new marker starts strictly before, so it passes the record that starts
  at 5.
\<close>

theorem findInsertIndex_equal_start_counterexample:
  "findInsertIndex records_2_5_9 (marker_at ''n'' 5 5) = 2 \<and>
   findInsertIndex records_2_5_9 (marker_at ''n'' 5 5) \<noteq> 1"
  by (simp add: example_defs)

text \<open>
  C1, amended: for every results list sorted by start and every new marker whose start
  equals the start of some record of the list, \<open>findInsertIndex\<close> returns the index just
  after the last record with that start: every record before the index starts at or
  before the new start, every record from the index on starts strictly after it, and the
  index is not 0. So the new record is inserted after all records with an equal start.
  With the starts 2, 5, 9 and a new start 5 the index is 2.
\<close>

theorem findInsertIndex_after_equal_starts:
  assumes "sorted_by_start rs" and "getStart m \<in> set (starts rs)"
  shows "(\<exists>i. findInsertIndex rs m = int i \<and> 0 < i \<and> i \<le> length rs \<and>
           (\<forall>j < i. getStart (marker (rs ! j)) \<le> getStart m) \<and>
           (\<forall>j. i \<le> j \<and> j < length rs \<longrightarrow> getStart m < getStart (marker (rs ! j)))) \<and>
         findInsertIndex records_2_5_9 (marker_at ''n'' 5 5) = 2"
proof -
  let ?P = "\<lambda>r. \<not> getStart m < getStart (marker r)"
  let ?i = "length (takeWhile ?P rs)"
  have idx: "findInsertIndex rs m = int ?i"
    by (rule findInsertIndex_takeWhile)
  have le: "?i \<le> length rs"
    by (rule length_takeWhile_le)
  have srt: "sorted (map (\<lambda>r. getStart (marker r)) rs)"
    using assms(1) by (simp add: sorted_by_start_def starts_def)
  have low: "getStart (marker (rs ! j)) \<le> getStart m" if "j < ?i" for j
  proof -
    from that have "takeWhile ?P rs ! j \<in> set (takeWhile ?P rs)"
      by (rule nth_mem)
    then have "?P (takeWhile ?P rs ! j)"
      by (rule set_takeWhileD [THEN conjunct2])
    moreover from that have "takeWhile ?P rs ! j = rs ! j"
      by (rule takeWhile_nth)
    ultimately show ?thesis
      by simp
  qed
  have high: "getStart m < getStart (marker (rs ! j))" if "?i \<le> j" and "j < length rs" for j
  proof -
    from that have lt: "?i < length rs" by simp
    then have first: "getStart m < getStart (marker (rs ! ?i))"
      using nth_length_takeWhile [of ?P rs] by simp
    from srt that have "getStart (marker (rs ! ?i)) \<le> getStart (marker (rs ! j))"
      using sorted_nth_mono [of "map (\<lambda>r. getStart (marker r)) rs" ?i j] by simp
    with first show ?thesis by simp
  qed
  have pos: "0 < ?i"
  proof (rule ccontr)
    assume "\<not> 0 < ?i"
    then have zero: "?i = 0" by simp
    from assms(2) obtain k where k: "k < length rs" and eq: "getStart (marker (rs ! k)) = getStart m"
      by (auto simp: starts_def in_set_conv_nth)
    from high [of k] zero k have "getStart m < getStart (marker (rs ! k))" by simp
    with eq show False by simp
  qed
  have ex: "findInsertIndex records_2_5_9 (marker_at ''n'' 5 5) = 2"
    by (simp add: example_defs)
  from idx pos le low high ex show ?thesis by blast
qed

theorem findInsertIndex_after_equal_starts_witness:
  "sorted_by_start [record_at ''a'' (3::nat), record_at ''b'' 3, record_at ''c'' 8] \<and>
   getStart (marker_at ''n'' 3 4) \<in>
     set (starts [record_at ''a'' (3::nat), record_at ''b'' 3, record_at ''c'' 8]) \<and>
   findInsertIndex [record_at ''a'' (3::nat), record_at ''b'' 3, record_at ''c'' 8]
     (marker_at ''n'' 3 4) = 2"
proof -
  let ?rs = "[record_at ''a'' (3::nat), record_at ''b'' 3, record_at ''c'' 8]"
  let ?m = "marker_at ''n'' (3::nat) 4"
  have s: "sorted_by_start ?rs"
    by (simp add: sorted_by_start_def starts_def record_at_def marker_at_def getStart_def)
  have e: "getStart ?m \<in> set (starts ?rs)"
    by (simp add: starts_def record_at_def marker_at_def getStart_def)
  from findInsertIndex_after_equal_starts [OF s e]
  obtain i where i: "findInsertIndex ?rs ?m = int i"
    and low: "\<forall>j < i. getStart (marker (?rs ! j)) \<le> getStart ?m"
    and high: "\<forall>j. i \<le> j \<and> j < length ?rs \<longrightarrow> getStart ?m < getStart (marker (?rs ! j))"
    by blast
  have "\<not> getStart ?m < getStart (marker (?rs ! 1))"
    by (simp add: record_at_def marker_at_def getStart_def)
  with high have "\<not> i \<le> 1" by fastforce
  moreover have "\<not> getStart (marker (?rs ! 2)) \<le> getStart ?m"
    by (simp add: record_at_def marker_at_def getStart_def)
  with low have "\<not> 2 < i" by blast
  ultimately have "i = 2" by simp
  with i s e show ?thesis
    by simp
qed

text \<open>
  C4: when the results list is sorted by the start of each record's marker, adding a
  record at the index \<open>findInsertIndex\<close> computes for its marker succeeds and gives a
  list that is sorted by start again, one record longer. This is what every insertion of
  \<open>updateFindResultFromRange\<close> does: the insertion of one hit completes and leaves the
  results sorted, and so after every value of the range, whether the scan completes or
  throws, its results list is sorted.
\<close>

theorem insertion_preserves_sorted_by_start:
  assumes "sorted_by_start (results s)"
  shows "(\<exists>rs'. add (results s) r (findInsertIndex (results s) (marker r)) = Inr rs' \<and>
            sorted_by_start rs' \<and> length rs' = Suc (length (results s))) \<and>
         (\<exists>s'. insertFoundItem model item foundItem s = Completed s' \<and>
            sorted_by_start (results s') \<and> length (results s') = Suc (length (results s))) \<and>
         sorted_by_start (results (state_of (updateFindResultFromRange range_values model findCallback s)))"
  using sorted_add_findInsertIndex [OF assms, of r]
    insertFoundItem_completes [OF assms, of model item foundItem]
    updateFindResultFromRange_sorted [OF assms, of range_values model findCallback]
  by (intro conjI)

lemmas scan_defs =
  example_model_def empty_state_def hit_cat_def hit_sat_def find_cat_sat_def throws_on_0_def
  falsy_on_0_def state_2_5_def visitValue_def insertFoundItem_def add_def findInsertIndex_def
  isBefore_def getStart_def record_at_def marker_at_def Let_def

theorem insertion_preserves_sorted_by_start_witness:
  "sorted_by_start (results state_2_5) \<and>
   sorted_by_start (results (state_of
     (updateFindResultFromRange [(ElementStart, 0)] example_model find_cat_sat state_2_5))) \<and>
   starts (results (state_of
     (updateFindResultFromRange [(ElementStart, 0)] example_model find_cat_sat state_2_5))) =
     [(0, 0), (0, 2), (0, 4), (0, 5)]"
proof -
  have s: "sorted_by_start (results state_2_5)"
    by (simp add: sorted_by_start_def starts_def scan_defs)
  have e: "starts (results (state_of
     (updateFindResultFromRange [(ElementStart, 0)] example_model find_cat_sat state_2_5))) =
     [(0, 0), (0, 2), (0, 4), (0, 5)]"
    by (simp add: scan_defs starts_def)
  from insertion_preserves_sorted_by_start
    [where range_values = "[(ElementStart, 0)]" and model = example_model
       and findCallback = find_cat_sat, OF s]
  have "sorted_by_start (results (state_of
     (updateFindResultFromRange [(ElementStart, 0)] example_model find_cat_sat state_2_5)))"
    by (rule conjunct2 [THEN conjunct2])
  with s e show ?thesis
    by (intro conjI)
qed

text \<open>
  C2, as the claim states it, fails: the abort is not limited to the element whose
  callback throws. In a range of two elements where the callback throws on the first and
  finds "cat" in the second, the scan ends at the first with the results list still
  empty; the second element, which alone would give one record, is never scanned.
\<close>

theorem matcher_throw_counterexample:
  "updateFindResultFromRange [(ElementStart, 0), (ElementStart, 1)] example_model throws_on_0
     empty_state = Threw MatcherFault empty_state \<and>
   results (state_of (updateFindResultFromRange [(ElementStart, 0), (ElementStart, 1)]
     example_model throws_on_0 empty_state)) = [] \<and>
   length (results (state_of (updateFindResultFromRange [(ElementStart, 1)]
     example_model throws_on_0 empty_state))) = 1"
  by (simp add: scan_defs)

text \<open>
  C2, amended: when the callback throws at an element, the whole scan ends there with
  that exception: the values of the range after that element are not visited, and the
  state at the throw is exactly the state the values before it left, so every record
  inserted for earlier elements is still in the results list, unchanged (nothing is
  rolled back).
\<close>

theorem matcher_throw_ends_scan_keeps_records:
  assumes "updateFindResultFromRange before model findCallback s = Completed s1"
    and "checkChild model item"
    and "findCallback item (rangeToText (itemsIn model item)) = Throws"
  shows "updateFindResultFromRange (before @ (ElementStart, item) # after) model findCallback s =
           Threw MatcherFault s1"
proof -
  from assms(2,3) have "visitValue model findCallback (ElementStart, item) s1 = Threw MatcherFault s1"
    by (simp add: visitValue_def)
  then have "updateFindResultFromRange ((ElementStart, item) # after) model findCallback s1 =
      Threw MatcherFault s1"
    by simp
  with assms(1) show ?thesis
    by (simp add: updateFindResultFromRange_append)
qed

theorem matcher_throw_ends_scan_keeps_records_witness:
  "updateFindResultFromRange [(ElementStart, 1)] example_model throws_on_0 state_2_5 =
     Completed (state_of
       (updateFindResultFromRange [(ElementStart, 1)] example_model throws_on_0 state_2_5)) \<and>
   checkChild example_model 0 \<and>
   throws_on_0 0 (rangeToText (itemsIn example_model 0)) = Throws \<and>
   updateFindResultFromRange ([(ElementStart, 1)] @ (ElementStart, 0) # [(ElementStart, 2)])
     example_model throws_on_0 state_2_5 =
     Threw MatcherFault (state_of
       (updateFindResultFromRange [(ElementStart, 1)] example_model throws_on_0 state_2_5)) \<and>
   length (results (state_of
       (updateFindResultFromRange [(ElementStart, 1)] example_model throws_on_0 state_2_5))) = 3"
proof -
  let ?s1 = "state_of
    (updateFindResultFromRange [(ElementStart, 1)] example_model throws_on_0 state_2_5)"
  have a: "updateFindResultFromRange [(ElementStart, 1)] example_model throws_on_0 state_2_5 =
      Completed ?s1"
    by (simp add: scan_defs)
  have b: "checkChild example_model 0"
    by (simp add: example_model_def)
  have c: "throws_on_0 0 (rangeToText (itemsIn example_model 0)) = Throws"
    by (simp add: throws_on_0_def)
  have l: "length (results ?s1) = 3"
    by (simp add: scan_defs)
  from matcher_throw_ends_scan_keeps_records
    [where model = example_model and findCallback = throws_on_0 and item = 0
       and after = "[(ElementStart, 2)]", OF a b c]
  have "updateFindResultFromRange ([(ElementStart, 1)] @ (ElementStart, 0) # [(ElementStart, 2)])
     example_model throws_on_0 state_2_5 = Threw MatcherFault ?s1" .
  with a b c l show ?thesis
    by (intro conjI)
qed

text \<open>
  C10: when the callback returns a falsy value for a scanned element (an element start
  whose element may hold text), visiting that element completes with the state unchanged:
  no marker is added, no record is inserted, no id is drawn. The scan then goes on with
  the remaining values of the range, from that same state.
\<close>

theorem falsy_result_leaves_state_and_continues:
  assumes "checkChild model item"
    and "findCallback item (rangeToText (itemsIn model item)) = Falsy"
  shows "visitValue model findCallback (ElementStart, item) s = Completed s \<and>
         updateFindResultFromRange ((ElementStart, item) # after) model findCallback s =
           updateFindResultFromRange after model findCallback s"
  using assms by (simp add: visitValue_def)

theorem falsy_result_leaves_state_and_continues_witness:
  "checkChild example_model 0 \<and>
   falsy_on_0 0 (rangeToText (itemsIn example_model 0)) = Falsy \<and>
   visitValue example_model falsy_on_0 (ElementStart, 0) state_2_5 = Completed state_2_5 \<and>
   updateFindResultFromRange ((ElementStart, 0) # [(ElementStart, 1)]) example_model falsy_on_0
     state_2_5 =
     updateFindResultFromRange [(ElementStart, 1)] example_model falsy_on_0 state_2_5 \<and>
   length (results (state_of (updateFindResultFromRange ((ElementStart, 0) # [(ElementStart, 1)])
     example_model falsy_on_0 state_2_5))) = 3"
proof -
  have b: "checkChild example_model 0"
    by (simp add: example_model_def)
  have c: "falsy_on_0 0 (rangeToText (itemsIn example_model 0)) = Falsy"
    by (simp add: falsy_on_0_def)
  have l: "length (results (state_of
      (updateFindResultFromRange [(ElementStart, 1)] example_model falsy_on_0 state_2_5))) = 3"
    by (simp add: scan_defs)
  from falsy_result_leaves_state_and_continues
    [where model = example_model and findCallback = falsy_on_0 and item = 0
       and s = state_2_5 and after = "[(ElementStart, 1)]", OF b c]
  have v: "visitValue example_model falsy_on_0 (ElementStart, 0) state_2_5 = Completed state_2_5"
    and u: "updateFindResultFromRange ((ElementStart, 0) # [(ElementStart, 1)]) example_model
      falsy_on_0 state_2_5 =
      updateFindResultFromRange [(ElementStart, 1)] example_model falsy_on_0 state_2_5"
    by blast+
  from l have l': "length (results (state_of (updateFindResultFromRange
      ((ElementStart, 0) # [(ElementStart, 1)]) example_model falsy_on_0 state_2_5))) = 3"
    by (simp only: u)
  from b c v u l' show ?thesis
    by (intro conjI)
qed

subsection \<open>rangeToText\<close>

lemma foldl_rangeToText_step:
  "foldl rangeToText_step acc range_items = acc @ concat (map contribution range_items)"
proof (induction range_items arbitrary: acc)
  case Nil
  then show ?case by simp
next
  case (Cons node nodes)
  have "rangeToText_step acc node = acc @ contribution node"
    by (cases node) (simp_all add: rangeToText_step_def)
  with Cons.IH show ?case by simp
qed

lemma length_contribution: "length (contribution node) = offsetSize node"
  by (cases node) (simp_all add: newline_def)

lemma length_concat_contribution:
  "length (concat (map contribution range_items)) = sum_list (map offsetSize range_items)"
  by (induction range_items) (simp_all add: length_contribution)

text \<open>
  C6: \<open>rangeToText\<close> is the concatenation, in the order of the items, of what each item
  contributes: a text item its text, any other item exactly one newline character. For
  the range of "ab", one soft break and "cd" the result is the five characters a, b,
  newline, c, d, and its length is the number of positions the range spans; for every
  range, the length of the text is the number of positions its items span.
\<close>

theorem rangeToText_flattens:
  "rangeToText range_items = concat (map contribution range_items) \<and>
   length (rangeToText range_items) = positions_spanned range_items \<and>
   rangeToText range_ab_break_cd = [CHR ''a'', CHR ''b'', CHR 0x0A, CHR ''c'', CHR ''d''] \<and>
   length (rangeToText range_ab_break_cd) = 5 \<and>
   positions_spanned range_ab_break_cd = 5"
proof -
  have a: "rangeToText range_items = concat (map contribution range_items)"
    by (simp add: rangeToText_def foldl_rangeToText_step)
  have b: "length (rangeToText range_items) = positions_spanned range_items"
    by (simp add: a positions_spanned_def length_concat_contribution)
  have c: "rangeToText range_ab_break_cd = [CHR ''a'', CHR ''b'', CHR 0x0A, CHR ''c'', CHR ''d'']"
    by (simp add: rangeToText_def rangeToText_step_def range_ab_break_cd_def newline_def)
  have d: "positions_spanned range_ab_break_cd = 5"
    by (simp add: positions_spanned_def range_ab_break_cd_def)
  from a b c d show ?thesis by simp
qed

section \<open>Properties of the observer\<close>

subsection \<open>The life cycle\<close>

lemma calls_toggles:
  "\<forall>c \<in> set cs. is_toggle c \<Longrightarrow>
   calls cs obs = obs\<lparr>isEnabled := (if cs = [] then isEnabled obs else last cs = Enable)\<rparr>"
proof (induction cs arbitrary: obs)
  case Nil
  then show ?case by simp
next
  case (Cons c cs)
  from Cons.prems have rest: "\<forall>c \<in> set cs. is_toggle c" and c: "is_toggle c"
    by simp_all
  from c have "c = Enable \<or> c = Disable"
    by (cases c) simp_all
  then show ?case
    using Cons.IH [OF rest, of "call c obs"]
    by (auto simp: enable_def disable_def)
qed

lemma listeners_call_released:
  "listeners obs = [] \<Longrightarrow> listeners (call c obs) = []"
  by (cases c) (simp_all add: enable_def disable_def destroy_def stopListening_def)

lemma listeners_calls_released:
  "listeners obs = [] \<Longrightarrow> listeners (calls cs obs) = []"
proof (induction cs arbitrary: obs)
  case Nil
  then show ?case by simp
next
  case (Cons c cs)
  from Cons.prems have "listeners (call c obs) = []"
    by (rule listeners_call_released)
  then show ?case
    using Cons.IH by simp
qed

text \<open>
  C8: a new observer is disabled. After any sequence of calls of \<open>enable()\<close> and
  \<open>disable()\<close>, on a new observer or on any other, the flag is true if the last call
  was \<open>enable()\<close> and false if it was \<open>disable()\<close>; the observer is otherwise what
  it was (its view, document and listeners are unchanged); and a second call of the same
  method changes nothing.
\<close>

theorem enable_disable_last_call_decides:
  assumes "\<forall>c \<in> set cs. is_toggle c"
  shows "isEnabled (Observer v :: ('d, 'l) observer) = False \<and>
         isEnabled (calls cs (Observer v :: ('d, 'l) observer)) = (cs \<noteq> [] \<and> last cs = Enable) \<and>
         (cs \<noteq> [] \<longrightarrow> isEnabled (calls cs obs) = (last cs = Enable)) \<and>
         calls cs obs = obs\<lparr>isEnabled := isEnabled (calls cs obs)\<rparr> \<and>
         enable (enable obs) = enable obs \<and>
         disable (disable obs) = disable obs"
proof -
  have a: "isEnabled (Observer v :: ('d, 'l) observer) = False"
    by (simp add: Observer_def)
  have b: "isEnabled (calls cs (Observer v :: ('d, 'l) observer)) = (cs \<noteq> [] \<and> last cs = Enable)"
    by (simp add: calls_toggles [OF assms] Observer_def)
  have c: "cs \<noteq> [] \<longrightarrow> isEnabled (calls cs obs) = (last cs = Enable)"
    by (simp add: calls_toggles [OF assms])
  have d: "calls cs obs = obs\<lparr>isEnabled := isEnabled (calls cs obs)\<rparr>"
    by (simp add: calls_toggles [OF assms])
  have e: "enable (enable obs) = enable obs" "disable (disable obs) = disable obs"
    by (simp_all add: enable_def disable_def)
  from a b c d e show ?thesis
    by (intro conjI)
qed

theorem enable_disable_last_call_decides_witness:
  "list_all is_toggle [Enable, Disable, Disable, Enable] \<and>
   isEnabled (calls [Enable, Disable, Disable, Enable]
     (Observer \<lparr>view_document = (7::nat)\<rparr> :: (nat, string) observer)) = True \<and>
   calls [Enable, Disable, Disable, Enable] example_observer =
     example_observer\<lparr>isEnabled := True\<rparr>"
proof -
  let ?cs = "[Enable, Disable, Disable, Enable]"
  let ?new = "Observer \<lparr>view_document = (7::nat)\<rparr> :: (nat, string) observer"
  have h: "\<forall>c \<in> set ?cs. is_toggle c"
    by simp
  note inst = enable_disable_last_call_decides
    [where cs = ?cs and v = "\<lparr>view_document = (7::nat)\<rparr>" and obs = example_observer, OF h]
  have lst: "(?cs \<noteq> [] \<and> last ?cs = Enable) = True"
    by simp
  from inst have "isEnabled (calls ?cs ?new) = (?cs \<noteq> [] \<and> last ?cs = Enable)"
    by (rule conjunct2 [THEN conjunct1])
  also note lst
  finally have a: "isEnabled (calls ?cs ?new) = True" .
  from inst have "?cs \<noteq> [] \<longrightarrow> isEnabled (calls ?cs example_observer) = (last ?cs = Enable)"
    by (rule conjunct2 [THEN conjunct2, THEN conjunct1])
  then have flag: "isEnabled (calls ?cs example_observer) = True"
    using lst by blast
  from inst have "calls ?cs example_observer =
      example_observer\<lparr>isEnabled := isEnabled (calls ?cs example_observer)\<rparr>"
    by (rule conjunct2 [THEN conjunct2, THEN conjunct2, THEN conjunct1])
  then have b: "calls ?cs example_observer = example_observer\<lparr>isEnabled := True\<rparr>"
    by (simp only: flag)
  have c: "list_all is_toggle ?cs"
    by simp
  from c a b show ?thesis
    by (intro conjI)
qed

text \<open>
  C3, as the claim states it, fails: an observer can be enabled again after
  \<open>destroy()\<close>. \<open>enable()\<close> sets the flag whatever happened before; the class keeps no
  record of having been destroyed.
\<close>

theorem enable_after_destroy_counterexample:
  "isEnabled (destroy example_observer) = False \<and>
   isEnabled (calls [Destroy, Enable] example_observer) = True"
  by (simp add: example_observer_def destroy_def disable_def enable_def stopListening_def)

text \<open>
  C3, amended: immediately after \<open>destroy()\<close> the flag is false and every listener of
  the observer is released; after any further sequence of calls of \<open>enable()\<close>,
  \<open>disable()\<close> and \<open>destroy()\<close> the listeners are still released, so no listener
  released by \<open>destroy()\<close> fires for the observer again. The flag is not terminal:
  \<open>enable()\<close> after \<open>destroy()\<close> sets it to true.
\<close>

theorem destroy_releases_listeners_for_good:
  "isEnabled (destroy obs) = False \<and>
   listeners (destroy obs) = [] \<and>
   listeners (calls cs (destroy obs)) = [] \<and>
   (\<forall>l. \<not> can_fire (calls cs (destroy obs)) l) \<and>
   isEnabled (enable (destroy obs)) = True"
proof -
  have a: "isEnabled (destroy obs) = False"
    by (simp add: destroy_def disable_def stopListening_def)
  have b: "listeners (destroy obs) = []"
    by (simp add: destroy_def stopListening_def)
  from b have c: "listeners (calls cs (destroy obs)) = []"
    by (rule listeners_calls_released)
  from c have d: "\<forall>l. \<not> can_fire (calls cs (destroy obs)) l"
    by (simp add: can_fire_def)
  have e: "isEnabled (enable (destroy obs)) = True"
    by (simp add: enable_def)
  from a b c d e show ?thesis
    by (intro conjI)
qed

subsection \<open>checkShouldIgnoreEventFromTarget\<close>

lemma nodeType_text: "(nodeType n = 3) = is_text_node n"
proof (cases n)
  case (DomNode k p)
  then show ?thesis by (cases k) (simp_all add: nodeType_def)
qed

lemma nodeType_element: "(nodeType n = Suc 0) = is_element n"
proof (cases n)
  case (DomNode k p)
  then show ?thesis by (cases k) (simp_all add: nodeType_def)
qed

lemma carries_upward_ancestors:
  "carries_upward n =
     (hasAttribute n ''data-cke-ignore-events'' \<or>
      list_ex (\<lambda>p. hasAttribute p ''data-cke-ignore-events'') (ancestors n))"
  by (induction n rule: carries_upward.induct) (simp_all add: hasAttribute_def)

lemma matches_ignore_events:
  "is_element n \<Longrightarrow> matches n ignore_events_selectors = Inr (carries_upward n)"
  by (simp add: matches_def nodeType_element ignore_events_selectors_def carries_upward_ancestors)

lemmas check_defs =
  checkShouldIgnoreEventFromTarget_def truthy_def read_nodeType_def read_parentNode_def
  call_matches_def ignore_policy_def resolve_target_def

lemma checkShouldIgnoreEventFromTarget_policy:
  "checkShouldIgnoreEventFromTarget t = Inr (ignore_policy t)"
proof (cases t)
  case None
  then show ?thesis
    by (simp add: check_defs)
next
  case (Some n)
  show ?thesis
  proof (cases "is_text_node n")
    case True
    note text_node = this
    show ?thesis
    proof (cases "parentNode n")
      case None
      with Some text_node show ?thesis
        by (simp add: check_defs nodeType_text)
    next
      case (Some p)
      with \<open>t = Some n\<close> text_node show ?thesis
        by (cases "is_element p")
          (simp_all add: check_defs nodeType_text nodeType_element matches_ignore_events)
    qed
  next
    case False
    with Some show ?thesis
      by (cases "is_element n")
        (simp_all add: check_defs nodeType_text nodeType_element matches_ignore_events)
  qed
qed

lemmas dom_example_defs =
  ignored_div_def text_in_ignored_div_def plain_paragraph_def detached_text_def
  ignore_policy_def resolve_target_def

text \<open>
  C5: \<open>checkShouldIgnoreEventFromTarget\<close> never throws and returns what the policy
  says, for every target: a text node (node type 3) is resolved to its parent; a resolved
  target that is missing or is not an element is not ignored; an element is ignored
  exactly when it or one of its ancestors carries the attribute
  \<open>data-cke-ignore-events\<close>. A text node in an element with the attribute is ignored; an
  element without the attribute on it or above it is not; a detached text node is not.
\<close>

theorem checkShouldIgnoreEventFromTarget_follows_policy:
  "checkShouldIgnoreEventFromTarget t = Inr (ignore_policy t) \<and>
   checkShouldIgnoreEventFromTarget (Some text_in_ignored_div) = Inr True \<and>
   checkShouldIgnoreEventFromTarget (Some plain_paragraph) = Inr False \<and>
   checkShouldIgnoreEventFromTarget (Some detached_text) = Inr False"
proof -
  have policy: "checkShouldIgnoreEventFromTarget u = Inr (ignore_policy u)" for u
    by (rule checkShouldIgnoreEventFromTarget_policy)
  have a: "ignore_policy (Some text_in_ignored_div) = True"
    by (simp add: dom_example_defs)
  have b: "ignore_policy (Some plain_paragraph) = False"
    by (simp add: dom_example_defs)
  have c: "ignore_policy (Some detached_text) = False"
    by (simp add: dom_example_defs)
  from policy [of t] policy [of "Some text_in_ignored_div"] policy [of "Some plain_paragraph"]
    policy [of "Some detached_text"] a b c
  show ?thesis
    by (simp only: simp_thms)
qed

text \<open>
  C9: \<open>checkShouldIgnoreEventFromTarget\<close> returns a boolean for every target and never
  throws; for a target that is \<open>null\<close> or \<open>undefined\<close> it returns false, and for a
  text node whose parent is \<open>null\<close> it returns false, whatever lies above.
\<close>

theorem checkShouldIgnoreEventFromTarget_total:
  "(\<exists>b. checkShouldIgnoreEventFromTarget t = Inr b) \<and>
   checkShouldIgnoreEventFromTarget None = Inr False \<and>
   checkShouldIgnoreEventFromTarget (Some (DomNode TextKind None)) = Inr False"
proof (intro conjI)
  show "\<exists>b. checkShouldIgnoreEventFromTarget t = Inr b"
    using checkShouldIgnoreEventFromTarget_policy [of t] by (rule exI)
next
  show "checkShouldIgnoreEventFromTarget None = Inr False"
    by (simp add: check_defs)
next
  have "nodeType (DomNode TextKind None) = 3"
    by (simp add: nodeType_def)
  then show "checkShouldIgnoreEventFromTarget (Some (DomNode TextKind None)) = Inr False"
    by (simp add: checkShouldIgnoreEventFromTarget_def truthy_def read_nodeType_def
        read_parentNode_def)
qed

end
